theory Spec2Isabelle
  imports Main "HOL-Library.Multiset"
begin

section \<open>Python values, dictionaries and the object store\<close>

text \<open>
  A value held in a row is either a string (every XML attribute value) or an integer
  (only the ordinal injected by \<open>__buildCif\<close>).  A cell of a finished category may also be
  Python's \<open>None\<close>, written \<open>None\<close> of the option type.
\<close>

datatype pyval = PyStr string | PyInt int

datatype error = KeyError | AttributeError | IndexError

text \<open>
  A Python \<open>dict\<close> keeps its keys in insertion order, and the code iterates over dicts, so a
  dict is an association list.  Looking a key up takes the first entry; assigning to a key
  replaces the value in place when the key is there and appends the entry otherwise.
\<close>

type_synonym ('k, 'v) pydict = "('k \<times> 'v) list"

definition dict_get :: "('k, 'v) pydict \<Rightarrow> 'k \<Rightarrow> 'v option" where
  "dict_get d k = map_of d k"

definition dict_keys :: "('k, 'v) pydict \<Rightarrow> 'k list" where
  "dict_keys d = map fst d"

definition dict_in :: "'k \<Rightarrow> ('k, 'v) pydict \<Rightarrow> bool" where
  "dict_in k d = (k \<in> set (dict_keys d))"

primrec dict_set :: "('k, 'v) pydict \<Rightarrow> 'k \<Rightarrow> 'v \<Rightarrow> ('k, 'v) pydict" where
  "dict_set [] k v = [(k, v)]"
| "dict_set (p # ps) k v = (if fst p = k then (k, v) # ps else p # dict_set ps k v)"

text \<open>\<open>d.update(e)\<close>: assign every entry of \<open>e\<close>, in order.\<close>

definition dict_update :: "('k, 'v) pydict \<Rightarrow> ('k, 'v) pydict \<Rightarrow> ('k, 'v) pydict" where
  "dict_update d e = fold (\<lambda>(k, v) acc. dict_set acc k v) e d"

text \<open>\<open>d.setdefault(k, []).append(x)\<close>: the list under \<open>k\<close> grows by \<open>x\<close>; a new key is
  entered at the end of the dict.\<close>

definition setdefault_append :: "('k, 'a list) pydict \<Rightarrow> 'k \<Rightarrow> 'a \<Rightarrow> ('k, 'a list) pydict" where
  "setdefault_append d k x =
     dict_set d k ((case dict_get d k of None \<Rightarrow> [] | Some l \<Rightarrow> l) @ [x])"

text \<open>
  Rows are dict objects and the code shares them: \<open>__extract\<close> puts \<open>el.attrib\<close> itself into
  the table of a top-level element or of a grandchild, and \<open>__buildCif\<close> assigns into the
  rows.  So dict objects live in a store, a row is the address of its dict, and a new dict
  is allocated at the end of the store.
\<close>

type_synonym addr = nat
type_synonym row = "(string, pyval) pydict"
type_synonym store = "row list"

definition alloc :: "row \<Rightarrow> store \<Rightarrow> addr \<times> store" where
  "alloc d st = (length st, st @ [d])"

section \<open>The parsed document\<close>

text \<open>
  The document as written: a tag, the attributes in document order and the child
  elements.  ElementTree's parser (outside this repository) gives every element an
  attribute dict of its own; \<open>parse\<close> stands for it, allocating the dicts in document
  order.  Reading the file and decompressing it are not modelled.
\<close>

datatype xml = Xml (xtag: string) (xattrib: "(string \<times> string) list") (xchildren: "xml list")

datatype element = Element (tag: string) (attrib: addr) (children: "element list")

definition attrib_dict :: "(string \<times> string) list \<Rightarrow> row" where
  "attrib_dict kvs = fold (\<lambda>(k, v) d. dict_set d k (PyStr v)) kvs []"

fun load :: "xml \<Rightarrow> store \<Rightarrow> element \<times> store"
  and load_list :: "xml list \<Rightarrow> store \<Rightarrow> element list \<times> store" where
  "load (Xml t kvs cs) st =
     (let (a, st1) = alloc (attrib_dict kvs) st;
          (es, st2) = load_list cs st1
      in (Element t a es, st2))"
| "load_list [] st = ([], st)"
| "load_list (c # cs) st =
     (let (e, st1) = load c st;
          (es, st2) = load_list cs st1
      in (e # es, st2))"

definition parse :: "xml \<Rightarrow> element \<times> store" where
  "parse doc = load doc []"

section \<open>\<open>__extract\<close>: flattening the tree\<close>

definition atL :: "string list" where
  "atL = [''altcode'', ''chain'', ''ent'', ''model'', ''resname'', ''resnum'', ''said'', ''seq'']"

type_synonym table = "(string, addr list) pydict"

text \<open>\<open>{k: ch.attrib[k] for k in ch.attrib}\<close>: a new dict with the entries of the old one.\<close>

definition dict_copy :: "row \<Rightarrow> row" where
  "dict_copy d =
     fold (\<lambda>k acc. case dict_get d k of None \<Rightarrow> acc | Some v \<Rightarrow> dict_set acc k v) (dict_keys d) []"

text \<open>\<open>{k: msgD[k] for k in atL if k in msgD}\<close>\<close>

definition cardinal_part :: "row \<Rightarrow> row" where
  "cardinal_part msgD =
     fold (\<lambda>k acc. case dict_get msgD k of None \<Rightarrow> acc | Some v \<Rightarrow> dict_set acc k v)
       (filter (\<lambda>k. dict_in k msgD) atL) []"

text \<open>Line 172: a grandchild's own attribute dict is appended to the table of its tag.\<close>

definition extract_gch :: "element \<Rightarrow> table \<Rightarrow> table" where
  "extract_gch gch rD = setdefault_append rD (tag gch) (attrib gch)"

text \<open>
  Lines 163 to 165: the row of a child is a new dict.  \<open>msgD\<close> is the address of the
  parent's attribute dict when the parent is a \<open>ModelledSubgroup\<close>, and \<open>None\<close> stands
  for the empty dict of the other branch.
\<close>

definition child_row :: "addr option \<Rightarrow> element \<Rightarrow> store \<Rightarrow> row" where
  "child_row msgD ch st =
     dict_update (dict_copy (st ! attrib ch))
       (cardinal_part (case msgD of None \<Rightarrow> [] | Some a \<Rightarrow> st ! a))"

definition extract_ch :: "addr option \<Rightarrow> element \<Rightarrow> table \<times> store \<Rightarrow> table \<times> store" where
  "extract_ch msgD ch = (\<lambda>(rD, st).
     let (d, st1) = alloc (child_row msgD ch st) st;
         rD1 = setdefault_append rD (tag ch) d
     in (fold extract_gch (children ch) rD1, st1))"

definition extract_el :: "element \<Rightarrow> table \<times> store \<Rightarrow> table \<times> store" where
  "extract_el el = (\<lambda>(rD, st).
     let rD1 = setdefault_append rD (tag el) (attrib el);
         msgD = (if tag el = ''ModelledSubgroup'' then Some (attrib el) else None)
     in fold (extract_ch msgD) (children el) (rD1, st))"

definition extract_xrt :: "element \<Rightarrow> store \<Rightarrow> table \<times> store" where
  "extract_xrt xrt st = fold extract_el (children xrt) ([], st)"

section \<open>The reader and its schema tables\<close>

text \<open>
  The code collects the column names of a category in a Python \<open>set\<close>, whose iteration
  order the language leaves open.  The field \<open>setOrder\<close> of the reader fixes it: given the
  names in the order they were added, it ranks each name, and the set is iterated by
  ascending rank.  Every enumeration of the set arises from some \<open>setOrder\<close>.
\<close>

text \<open>
  Modelled from the spec: the tables that \<open>ValidationReportSchemaUtils\<close> supplies, a
  module of this package whose source is missing.  They are fields of the reader, so
  what is proved holds for all tables: \<open>categories\<close> and \<open>attributes\<close> are the two tables
  of the schema map (an entry of the attribute table is the canonical attribute name,
  which the code reads as the \<open>'at'\<close> item of the entry), \<open>atOrdD\<close> gives the rank of an
  attribute name, and \<open>atMap\<close> decodes a provenance token.
\<close>

record reader =
  categories :: "(string, string) pydict"
  attributes :: "(string \<times> string, string) pydict"
  atOrdD :: "(string, int) pydict"
  atMap :: "(string, string) pydict"
  setOrder :: "string list \<Rightarrow> string \<Rightarrow> nat"

text \<open>Lines 46 to 48 of \<open>__init__\<close>: the attribute names registered for each category.\<close>

definition attribD :: "reader \<Rightarrow> (string, string list) pydict" where
  "attribD R =
     fold (\<lambda>(catName, atName) d. setdefault_append d catName atName) (dict_keys (attributes R)) []"

section \<open>Strings\<close>

text \<open>\<open>str.strip()\<close>, \<open>str.split(',')\<close>, \<open>','.join\<close> and \<open>str()\<close>.  A character is a code
  point below 256; the white space of \<open>strip\<close> in that range is listed.\<close>

definition py_isspace :: "char \<Rightarrow> bool" where
  "py_isspace c = (of_char c \<in> set [9, 10, 11, 12, 13, 28, 29, 30, 31, 32, 133, 160 :: nat])"

definition py_strip :: "string \<Rightarrow> string" where
  "py_strip s = rev (dropWhile py_isspace (rev (dropWhile py_isspace s)))"

fun py_split :: "char \<Rightarrow> string \<Rightarrow> string list" where
  "py_split sep [] = [[]]"
| "py_split sep (c # cs) =
     (if c = sep then [] # py_split sep cs
      else case py_split sep cs of [] \<Rightarrow> [[c]] | t # ts \<Rightarrow> (c # t) # ts)"

fun py_join :: "string \<Rightarrow> string list \<Rightarrow> string" where
  "py_join sep [] = []"
| "py_join sep [x] = x"
| "py_join sep (x # y # ys) = x @ sep @ py_join sep (y # ys)"

fun digits10 :: "nat \<Rightarrow> string" where
  "digits10 n =
     (if n < 10 then [char_of (48 + n)] else digits10 (n div 10) @ [char_of (48 + n mod 10)])"

declare digits10.simps [simp del]

definition py_str :: "pyval \<Rightarrow> string" where
  "py_str v = (case v of PyStr s \<Rightarrow> s
     | PyInt i \<Rightarrow> if i < 0 then CHR ''-'' # digits10 (nat (- i)) else digits10 (nat i))"

section \<open>The classes of the mmcif package\<close>

text \<open>
  \<open>DataCategory\<close> and \<open>DataContainer\<close> come from the mmcif package, which is outside this
  repository.  The operations the reader calls are written here as that package
  documents them.  A category built from dict rows stores each row as the list of the
  values of its attributes, \<open>None\<close> where the row lacks the key.  A container keeps its
  objects in a catalog keyed by the name each object had when it was appended, in the
  order of appending; \<open>setName\<close> on an object leaves the catalog key as it is, which is
  why line 131 can ask for the key \<open>program\<close> after the renaming of lines 118 to 127.
\<close>

record DataCategory =
  name :: string
  attributeNameList :: "string list"
  data :: "pyval option list list"

definition DataCategory_init :: "string \<Rightarrow> string list \<Rightarrow> row list \<Rightarrow> DataCategory" where
  "DataCategory_init catName attributeNames rowList =
     \<lparr>name = catName, attributeNameList = attributeNames,
      data = map (\<lambda>rowD. map (dict_get rowD) attributeNames) rowList\<rparr>"

definition renameAttributes :: "DataCategory \<Rightarrow> (string, string) pydict \<Rightarrow> DataCategory" where
  "renameAttributes catObj mapD =
     catObj\<lparr>attributeNameList :=
       map (\<lambda>atName. case dict_get mapD atName of None \<Rightarrow> atName | Some n \<Rightarrow> n)
         (attributeNameList catObj)\<rparr>"

definition setName :: "DataCategory \<Rightarrow> string \<Rightarrow> DataCategory" where
  "setName catObj n = catObj\<lparr>name := n\<rparr>"

definition hasAttribute :: "DataCategory \<Rightarrow> string \<Rightarrow> bool" where
  "hasAttribute catObj atName = (atName \<in> set (attributeNameList catObj))"

definition getRowCount :: "DataCategory \<Rightarrow> nat" where
  "getRowCount catObj = length (data catObj)"

definition attributeIndex :: "DataCategory \<Rightarrow> string \<Rightarrow> nat" where
  "attributeIndex catObj atName =
     length (takeWhile (\<lambda>a. a \<noteq> atName) (attributeNameList catObj))"

record DataContainer =
  containerName :: string
  objCatalog :: "(string, DataCategory) pydict"

definition DataContainer_init :: "string \<Rightarrow> DataContainer" where
  "DataContainer_init n = \<lparr>containerName = n, objCatalog = []\<rparr>"

definition container_append :: "DataContainer \<Rightarrow> DataCategory \<Rightarrow> DataContainer" where
  "container_append c obj = c\<lparr>objCatalog := dict_set (objCatalog c) (name obj) obj\<rparr>"

definition getObj :: "DataContainer \<Rightarrow> string \<Rightarrow> DataCategory option" where
  "getObj c n = dict_get (objCatalog c) n"

section \<open>\<open>__buildCif\<close>: building the categories\<close>

text \<open>Lines 97 to 102: what one pass of the row loop assigns into the dict \<open>rowD\<close>.\<close>

definition normalize_row :: "bool \<Rightarrow> int \<Rightarrow> row \<Rightarrow> row" where
  "normalize_row hasOrdinal ii rowD =
     (let r1 = (if hasOrdinal then dict_set rowD ''ordinal'' (PyInt ii) else rowD);
          r2 = (case dict_get r1 ''icode'' of None \<Rightarrow> r1
                | Some v \<Rightarrow> dict_set r1 ''icode'' (PyStr (py_strip (py_str v))));
          r3 = (case dict_get r2 ''altcode'' of None \<Rightarrow> r2
                | Some v \<Rightarrow> dict_set r2 ''altcode'' (PyStr (py_strip (py_str v))))
      in r3)"

text \<open>
  Lines 95 to 103: the loop over \<open>enumerate(rowList, 1)\<close>.  Each row is an address, the
  assignments go to the dict at that address, and \<open>atS\<close> is the list of the names added
  to the set so far.
\<close>

fun normalize_rows :: "bool \<Rightarrow> int \<Rightarrow> addr list \<Rightarrow> store \<times> string list \<Rightarrow> store \<times> string list" where
  "normalize_rows hasOrdinal ii [] (st, atS) = (st, atS)"
| "normalize_rows hasOrdinal ii (rowD # rowList) (st, atS) =
     (let st1 = st[rowD := normalize_row hasOrdinal ii (st ! rowD)]
      in normalize_rows hasOrdinal (ii + 1) rowList (st1, atS @ dict_keys (st1 ! rowD)))"

text \<open>Line 104: \<open>list(atS)\<close>, the names of the set in its iteration order.\<close>

definition set_to_list :: "reader \<Rightarrow> string list \<Rightarrow> string list" where
  "set_to_list R atS = sort_key (setOrder R atS) (remdups atS)"

text \<open>Line 108: the dict of the ranks; a name without a rank raises \<open>KeyError\<close>.\<close>

fun rank_items :: "(string, int) pydict \<Rightarrow> string list \<Rightarrow> error + (string \<times> int) list" where
  "rank_items ordD [] = Inr []"
| "rank_items ordD (ky # kys) =
     (case dict_get ordD ky of None \<Rightarrow> Inl KeyError
      | Some r \<Rightarrow> (case rank_items ordD kys of Inl e \<Rightarrow> Inl e
                  | Inr sD \<Rightarrow> Inr ((ky, r) # sD)))"

text \<open>Lines 104 to 109.  Python's \<open>sorted\<close> is stable, as \<open>sort_key\<close> is.\<close>

definition sorted_attributes :: "reader \<Rightarrow> string list \<Rightarrow> error + string list" where
  "sorted_attributes R atS =
     (let attributeNameList = set_to_list R atS
      in case rank_items (atOrdD R) attributeNameList of Inl e \<Rightarrow> Inl e
         | Inr sD \<Rightarrow> Inr (map fst (sort_key snd sD)))"

text \<open>
  Lines 89 to 113, the body of the loop over \<open>rD\<close> for one entry: \<open>None\<close> is the
  \<open>continue\<close> of line 91.  The first test of line 90 decides before \<open>__attribD\<close> is
  indexed; indexing it with a category that is not registered raises \<open>KeyError\<close>.
\<close>

definition build_category ::
  "reader \<Rightarrow> string \<Rightarrow> addr list \<Rightarrow> store \<Rightarrow> error + (DataCategory option \<times> store)" where
  "build_category R elName rowList st =
     (if length rowList < 1 then Inr (None, st)
      else case dict_get (attribD R) elName of None \<Rightarrow> Inl KeyError
        | Some ats \<Rightarrow>
            if length ats < 1 \<or> elName \<in> set [''programs''] then Inr (None, st)
            else (let hasOrdinal = (''ordinal'' \<in> set ats);
                      (st1, atS) = normalize_rows hasOrdinal 1 rowList (st, [])
                  in case sorted_attributes R atS of Inl e \<Rightarrow> Inl e
                     | Inr srtAtL \<Rightarrow>
                         Inr (Some (DataCategory_init elName srtAtL (map (\<lambda>a. st1 ! a) rowList)),
                              st1)))"

text \<open>Lines 88 to 113: the loop over the entries of \<open>rD\<close>, in the order of the dict.\<close>

fun build_categories ::
  "reader \<Rightarrow> table \<Rightarrow> store \<times> DataContainer \<Rightarrow> error + (store \<times> DataContainer)" where
  "build_categories R [] (st, cur) = Inr (st, cur)"
| "build_categories R ((elName, rowList) # rD) (st, cur) =
     (case build_category R elName rowList st of Inl e \<Rightarrow> Inl e
      | Inr (None, st1) \<Rightarrow> build_categories R rD (st1, cur)
      | Inr (Some aCat, st1) \<Rightarrow> build_categories R rD (st1, container_append cur aCat))"

section \<open>\<open>__buildCif\<close>: schema names and provenance\<close>

text \<open>Lines 119 to 127 for the object \<open>catObj\<close> kept under the catalog key \<open>catName\<close>.\<close>

definition mapCatName :: "reader \<Rightarrow> string \<Rightarrow> string" where
  "mapCatName R catName =
     (case dict_get (categories R) catName of None \<Rightarrow> catName | Some n \<Rightarrow> n)"

definition mapAtName :: "reader \<Rightarrow> string \<Rightarrow> string \<Rightarrow> string" where
  "mapAtName R catName atName =
     (case dict_get (attributes R) (catName, atName) of None \<Rightarrow> atName | Some n \<Rightarrow> n)"

definition rename_category :: "reader \<Rightarrow> string \<Rightarrow> DataCategory \<Rightarrow> DataCategory" where
  "rename_category R catName catObj =
     (let atNameList = attributeNameList catObj;
          mapD = fold (\<lambda>atName d. dict_set d atName (mapAtName R catName atName)) atNameList []
      in setName (renameAttributes catObj mapD) (mapCatName R catName))"

text \<open>Lines 118 to 127: every name of the container's name list with its object.\<close>

definition adjust_schema_names :: "reader \<Rightarrow> DataContainer \<Rightarrow> DataContainer" where
  "adjust_schema_names R cur =
     cur\<lparr>objCatalog :=
       map (\<lambda>(catName, catObj). (catName, rename_category R catName catObj)) (objCatalog cur)\<rparr>"

text \<open>Line 136 for one token.\<close>

definition decode_token :: "reader \<Rightarrow> string \<Rightarrow> string" where
  "decode_token R ky = (case dict_get (atMap R) ky of None \<Rightarrow> ky | Some n \<Rightarrow> n)"

text \<open>Lines 135 to 137 for the string \<open>pV\<close>.\<close>

definition decode_properties :: "reader \<Rightarrow> string \<Rightarrow> string" where
  "decode_properties R pV =
     (let pVL = map py_strip (py_split (CHR '','') pV);
          nL = map (decode_token R) pVL
      in py_join '','' nL)"

text \<open>
  \<open>getValue\<close> and \<open>setValue\<close> of the mmcif package address a cell by the first position
  of the attribute name.  \<open>getValue\<close> raises \<open>IndexError\<close> outside the table;
  \<open>setValue\<close> lengthens a row that is too short.
\<close>

definition getValue :: "DataCategory \<Rightarrow> string \<Rightarrow> nat \<Rightarrow> error + pyval option" where
  "getValue catObj atName iRow =
     (let ind = attributeIndex catObj atName
      in if iRow < length (data catObj) \<and> ind < length (data catObj ! iRow)
         then Inr (data catObj ! iRow ! ind) else Inl IndexError)"

definition set_cell :: "pyval option list \<Rightarrow> nat \<Rightarrow> pyval option \<Rightarrow> pyval option list" where
  "set_cell r ind v =
     (if ind < length r then r[ind := v] else r @ replicate (ind - length r) None @ [v])"

definition setValue :: "DataCategory \<Rightarrow> pyval option \<Rightarrow> string \<Rightarrow> nat \<Rightarrow> DataCategory" where
  "setValue catObj v atName iRow =
     catObj\<lparr>data := (data catObj)[iRow :=
       set_cell (data catObj ! iRow) (attributeIndex catObj atName) v]\<rparr>"

text \<open>
  Lines 134 to 137 for the row \<open>iRow\<close>: a value that is \<open>None\<close> or an integer has no
  \<open>split\<close>, which raises \<open>AttributeError\<close>.
\<close>

definition resolve_row :: "reader \<Rightarrow> nat \<Rightarrow> DataCategory \<Rightarrow> error + DataCategory" where
  "resolve_row R iRow catObj =
     (case getValue catObj ''properties'' iRow of Inl e \<Rightarrow> Inl e
      | Inr None \<Rightarrow> Inl AttributeError
      | Inr (Some (PyInt i)) \<Rightarrow> Inl AttributeError
      | Inr (Some (PyStr pV)) \<Rightarrow>
          Inr (setValue catObj (Some (PyStr (decode_properties R pV))) ''properties'' iRow))"

fun resolve_rows :: "reader \<Rightarrow> nat list \<Rightarrow> DataCategory \<Rightarrow> error + DataCategory" where
  "resolve_rows R [] catObj = Inr catObj"
| "resolve_rows R (iRow # rest) catObj =
     (case resolve_row R iRow catObj of Inl e \<Rightarrow> Inl e
      | Inr catObj1 \<Rightarrow> resolve_rows R rest catObj1)"

text \<open>
  Lines 131 to 139.  \<open>getObj\<close> gives \<open>None\<close> for a key that is not in the catalog, and a
  category object is true when it has a row.  The \<open>return\<close> of line 139 stands inside
  the \<open>if\<close> of line 132: on the other branch the method ends without a \<open>return\<close>, and
  its value is Python's \<open>None\<close>, here \<open>None\<close> of the option type.
\<close>

definition resolve_provenance :: "reader \<Rightarrow> DataContainer \<Rightarrow> error + DataContainer list option" where
  "resolve_provenance R curContainer =
     (case getObj curContainer ''program'' of None \<Rightarrow> Inr None
      | Some catObj \<Rightarrow>
          if data catObj \<noteq> [] \<and> hasAttribute catObj ''properties''
          then (case resolve_rows R [0..<getRowCount catObj] catObj of Inl e \<Rightarrow> Inl e
                | Inr catObj1 \<Rightarrow>
                    Inr (Some [curContainer\<lparr>objCatalog :=
                      dict_set (objCatalog curContainer) ''program'' catObj1\<rparr>]))
          else Inr None)"

definition buildCif ::
  "reader \<Rightarrow> table \<Rightarrow> store \<Rightarrow> error + (DataContainer list option \<times> store)" where
  "buildCif R rD st =
     (case build_categories R rD (st, DataContainer_init ''vrpt'') of Inl e \<Rightarrow> Inl e
      | Inr (st1, curContainer) \<Rightarrow>
          (case resolve_provenance R (adjust_schema_names R curContainer) of Inl e \<Rightarrow> Inl e
           | Inr res \<Rightarrow> Inr (res, st1)))"

section \<open>\<open>read\<close>\<close>

text \<open>
  Lines 55 to 58.  The result is the value \<open>read\<close> returns together with the store
  at that moment, or the exception raised.
\<close>

definition read :: "reader \<Rightarrow> xml \<Rightarrow> error + (DataContainer list option \<times> store)" where
  "read R doc =
     (let (xrt, st) = parse doc;
          (rD, st1) = extract_xrt xrt st
      in buildCif R rD st1)"

section \<open>Auxiliary notions for the proofs\<close>

text \<open>All the row addresses held in a table.\<close>

definition table_addrs :: "table \<Rightarrow> addr list" where
  "table_addrs rD = concat (map snd rD)"

text \<open>The attribute dicts of a tree in document order, alone and with the depth of
  their element below the root.\<close>

fun addrs_of :: "element \<Rightarrow> addr list" where
  "addrs_of (Element t a cs) = a # concat (map addrs_of cs)"


text \<open>The table \<open>rD\<close> holds the row \<open>a\<close> under the tag \<open>t\<close>.\<close>

definition in_table :: "table \<Rightarrow> string \<Rightarrow> addr \<Rightarrow> bool" where
  "in_table rD t a = (case dict_get rD t of None \<Rightarrow> False | Some rows \<Rightarrow> a \<in> set rows)"

text \<open>Line 158: the dict whose cardinal attributes go to the children of \<open>el\<close>.\<close>

definition msgD_of :: "element \<Rightarrow> addr option" where
  "msgD_of el = (if tag el = ''ModelledSubgroup'' then Some (attrib el) else None)"



section \<open>Sample schema and documents\<close>

definition demo_reader :: reader where
  "demo_reader =
     \<lparr>categories = [(''Entry'', ''pdbx_vrpt_summary''), (''program'', ''pdbx_vrpt_software'')],
      attributes = [((''Entry'', ''pdbid''), ''pdb_id''), ((''Entry'', ''ordinal''), ''ordinal''),
                    ((''pdbx_vrpt_summary'', ''pdbid''), ''entry_id''),
                    ((''programs'', ''dummy''), ''dummy''),
                    ((''program'', ''name''), ''name''),
                    ((''program'', ''properties''), ''properties'')],
      atOrdD = [(''ordinal'', 1), (''pdbid'', 2), (''name'', 3), (''properties'', 4)],
      atMap = [(''clashscore'', ''claims clashscore'')],
      setOrder = (\<lambda>atS ky. 0)\<rparr>"

definition doc_entry :: xml where
  "doc_entry = Xml ''wwPDB-validation-information'' [] [Xml ''Entry'' [(''pdbid'', ''1ABC'')] []]"

definition doc_unregistered :: xml where
  "doc_unregistered =
     Xml ''wwPDB-validation-information'' [] [Xml ''Extension'' [(''pdbid'', ''1ABC'')] []]"


text \<open>One of the two trimming statements of lines 99 to 102, for the key \<open>k\<close>.\<close>

definition trim_key :: "string \<Rightarrow> row \<Rightarrow> row" where
  "trim_key k r = (case dict_get r k of None \<Rightarrow> r
     | Some v \<Rightarrow> dict_set r k (PyStr (py_strip (py_str v))))"

definition doc_unranked :: xml where
  "doc_unranked =
     Xml ''wwPDB-validation-information'' [] [Xml ''Entry'' [(''pdbid'', ''1ABC''), (''colour'', ''red'')] []]"

text \<open>The store after \<open>doc_entry\<close> is parsed and flattened, the \<open>Entry\<close> category
  built from it, and the store after that.\<close>

definition demo_store :: store where
  "demo_store = [[], [(''pdbid'', PyStr ''1ABC'')]]"

definition demo_category :: DataCategory where
  "demo_category =
     \<lparr>name = ''Entry'', attributeNameList = [''ordinal'', ''pdbid''],
      data = [[Some (PyInt 1), Some (PyStr ''1ABC'')]]\<rparr>"

definition demo_store1 :: store where
  "demo_store1 = [[], [(''pdbid'', PyStr ''1ABC''), (''ordinal'', PyInt 1)]]"



definition doc_subgroup :: xml where
  "doc_subgroup =
     Xml ''wwPDB-validation-information'' []
       [Xml ''ModelledSubgroup'' [(''chain'', ''1''), (''rsr'', ''0.1'')]
          [Xml ''B'' [(''y'', ''2'')] [Xml ''G'' [(''z'', ''3'')] []]]]"

definition subgroup_tree :: element where
  "subgroup_tree =
     Element ''wwPDB-validation-information'' 0
       [Element ''ModelledSubgroup'' 1 [Element ''B'' 2 [Element ''G'' 3 []]]]"

definition subgroup_store :: store where
  "subgroup_store =
     [[], [(''chain'', PyStr ''1''), (''rsr'', PyStr ''0.1'')], [(''y'', PyStr ''2'')],
      [(''z'', PyStr ''3'')]]"

definition subgroup_table :: table where
  "subgroup_table = [(''ModelledSubgroup'', [1]), (''B'', [4]), (''G'', [3])]"

definition subgroup_store1 :: store where
  "subgroup_store1 = subgroup_store @ [[(''y'', PyStr ''2''), (''chain'', PyStr ''1'')]]"

text \<open>A \<open>ModelledSubgroup\<close> and a child that both carry \<open>chain\<close>, with the store holding
  their attribute dicts.\<close>

definition clash_el :: element where
  "clash_el = Element ''ModelledSubgroup'' 0 [Element ''clash'' 1 []]"

definition clash_store :: store where
  "clash_store = [[(''chain'', PyStr ''A'')], [(''chain'', PyStr ''B''), (''dist'', PyStr ''2.1'')]]"













section \<open>Dictionaries\<close>

lemma dict_get_dict_set:
  "dict_get (dict_set d k v) k' = (if k' = k then Some v else dict_get d k')"
  by (induction d) (auto simp: dict_get_def)

lemma dict_keys_dict_set:
  "set (dict_keys (dict_set d k v)) = insert k (set (dict_keys d))"
  by (induction d) (auto simp: dict_keys_def)

lemma dict_in_iff: "dict_in k d \<longleftrightarrow> dict_get d k \<noteq> None"
  by (simp add: dict_in_def dict_keys_def dict_get_def map_of_eq_None_iff)

lemma dict_get_setdefault_append:
  "dict_get (setdefault_append d k x) k' =
     (if k' = k then Some ((case dict_get d k of None \<Rightarrow> [] | Some l \<Rightarrow> l) @ [x])
      else dict_get d k')"
  by (simp add: setdefault_append_def dict_get_dict_set)





section \<open>Ordering the attributes\<close>

lemma rank_items_Inr:
  "rank_items ordD kys = Inr sD \<Longrightarrow>
     map fst sD = kys \<and> (\<forall>p \<in> set sD. dict_get ordD (fst p) = Some (snd p))"
proof (induction kys arbitrary: sD)
  case Nil
  then show ?case by simp
next
  case (Cons k kys)
  from Cons.prems obtain r where r: "dict_get ordD k = Some r"
    by (cases "dict_get ordD k") simp_all
  from Cons.prems r obtain sD' where sD': "rank_items ordD kys = Inr sD'"
    by (cases "rank_items ordD kys") simp_all
  from Cons.prems r sD' have eq: "sD = (k, r) # sD'" by simp
  from Cons.IH [OF sD'] r show ?case by (simp add: eq)
qed

lemma rank_items_Inl: "rank_items ordD kys = Inl e \<Longrightarrow> e = KeyError"
proof (induction kys)
  case Nil
  then show ?case by simp
next
  case (Cons k kys)
  show ?case
  proof (cases "dict_get ordD k")
    case None
    with Cons.prems show ?thesis by simp
  next
    case (Some r)
    show ?thesis
    proof (cases "rank_items ordD kys")
      case (Inl x)
      with Some Cons.prems have "x = e" by simp
      with Inl Cons.IH show ?thesis by simp
    next
      case (Inr sD)
      with Some Cons.prems show ?thesis by simp
    qed
  qed
qed

lemma rank_items_missing:
  "ky \<in> set kys \<Longrightarrow> dict_get ordD ky = None \<Longrightarrow> rank_items ordD kys = Inl KeyError"
proof (induction kys)
  case Nil
  then show ?case by simp
next
  case (Cons k kys)
  show ?case
  proof (cases "dict_get ordD k")
    case None
    then show ?thesis by simp
  next
    case (Some r)
    with Cons.prems have "ky \<in> set kys" by auto
    with Cons have "rank_items ordD kys = Inl KeyError" by simp
    with Some show ?thesis by simp
  qed
qed

lemma set_set_to_list: "set (set_to_list R atS) = set atS"
  by (simp add: set_to_list_def)

lemma distinct_set_to_list: "distinct (set_to_list R atS)"
  by (simp add: set_to_list_def)

lemma sorted_attributes_Inl:
  assumes "sorted_attributes R atS = Inl e"
  shows "e = KeyError"
proof (cases "rank_items (atOrdD R) (set_to_list R atS)")
  case (Inl x)
  with assms have "x = e" by (simp add: sorted_attributes_def)
  with Inl show ?thesis using rank_items_Inl [of "atOrdD R" "set_to_list R atS" e] by simp
next
  case (Inr sD)
  with assms show ?thesis by (simp add: sorted_attributes_def)
qed

lemma sorted_attributes_missing:
  "ky \<in> set atS \<Longrightarrow> dict_get (atOrdD R) ky = None \<Longrightarrow> sorted_attributes R atS = Inl KeyError"
  using rank_items_missing [of ky "set_to_list R atS" "atOrdD R"]
  by (simp add: sorted_attributes_def Let_def set_set_to_list)

lemma sorted_attributes_InrD:
  assumes "sorted_attributes R atS = Inr L"
  obtains sD where "rank_items (atOrdD R) (set_to_list R atS) = Inr sD"
    and "L = map fst (sort_key snd sD)"
proof (cases "rank_items (atOrdD R) (set_to_list R atS)")
  case (Inl x)
  with assms show ?thesis by (simp add: sorted_attributes_def)
next
  case (Inr sD)
  with assms have "L = map fst (sort_key snd sD)" by (simp add: sorted_attributes_def)
  with Inr that show ?thesis by blast
qed

lemma sorted_attributes_set:
  assumes "sorted_attributes R atS = Inr L"
  shows "set L = set atS" and "distinct L"
proof -
  from assms obtain sD where sD: "rank_items (atOrdD R) (set_to_list R atS) = Inr sD"
    and L: "L = map fst (sort_key snd sD)"
    by (rule sorted_attributes_InrD)
  from rank_items_Inr [OF sD] have fst: "map fst sD = set_to_list R atS" by simp
  have "mset (map fst (sort_key snd sD)) = mset (map fst sD)"
    by simp
  then have m: "mset L = mset (set_to_list R atS)" using L fst by simp
  from m have "set L = set (set_to_list R atS)" by (rule mset_eq_setD)
  then show "set L = set atS" by (simp add: set_set_to_list)
  from mset_eq_imp_distinct_iff [OF m] show "distinct L"
    using distinct_set_to_list [of R atS] by simp
qed

lemma sorted_attributes_order:
  assumes "sorted_attributes R atS = Inr L"
    and "i < length L" and "j < length L"
    and "dict_get (atOrdD R) (L ! i) = Some r1"
    and "dict_get (atOrdD R) (L ! j) = Some r2"
    and "r1 < r2"
  shows "i < j"
proof -
  from assms(1) obtain sD where sD: "rank_items (atOrdD R) (set_to_list R atS) = Inr sD"
    and L: "L = map fst (sort_key snd sD)"
    by (rule sorted_attributes_InrD)
  define S where "S = sort_key snd sD"
  have len: "length S = length L" by (simp add: S_def L)
  have srt: "sorted (map snd S)" by (simp add: S_def)
  have mem: "\<And>n. n < length S \<Longrightarrow> dict_get (atOrdD R) (fst (S ! n)) = Some (snd (S ! n))"
  proof -
    fix n assume "n < length S"
    then have "S ! n \<in> set S" by simp
    then have "S ! n \<in> set sD" by (simp add: S_def)
    with rank_items_Inr [OF sD] show "dict_get (atOrdD R) (fst (S ! n)) = Some (snd (S ! n))"
      by blast
  qed
  have Li: "L ! i = fst (S ! i)" and Lj: "L ! j = fst (S ! j)"
    using assms(2,3) by (simp_all add: L S_def)
  from mem [of i] assms(2,4) len Li have r1: "r1 = snd (S ! i)" by simp
  from mem [of j] assms(3,5) len Lj have r2: "r2 = snd (S ! j)" by simp
  show ?thesis
  proof (rule ccontr)
    assume "\<not> i < j"
    then have "j \<le> i" by simp
    with srt assms(2) len have "map snd S ! j \<le> map snd S ! i"
      by (intro sorted_nth_mono) simp_all
    with assms(2,3) len have "snd (S ! j) \<le> snd (S ! i)" by simp
    with r1 r2 assms(6) show False by simp
  qed
qed

section \<open>Normalising the rows\<close>

lemma dict_keys_subset_dict_set: "set (dict_keys d) \<subseteq> set (dict_keys (dict_set d k v))"
  by (simp add: dict_keys_dict_set subset_insertI)

lemma dict_in_keys_get: "k \<in> set (dict_keys d) \<longleftrightarrow> dict_get d k \<noteq> None"
  using dict_in_iff [of k d] by (simp add: dict_in_def)

lemma dict_set_present_keys:
  "dict_get d k = Some w \<Longrightarrow> set (dict_keys (dict_set d k v)) = set (dict_keys d)"
proof -
  assume "dict_get d k = Some w"
  then have "k \<in> set (dict_keys d)" by (simp add: dict_in_keys_get)
  then show ?thesis by (auto simp: dict_keys_dict_set)
qed

lemma keys_trim_key: "set (dict_keys (trim_key k r)) = set (dict_keys r)"
  by (cases "dict_get r k") (simp_all add: trim_key_def dict_set_present_keys)


lemma normalize_row_alt:
  "normalize_row hasOrdinal ii rowD =
     trim_key ''altcode'' (trim_key ''icode''
       (if hasOrdinal then dict_set rowD ''ordinal'' (PyInt ii) else rowD))"
  by (simp add: normalize_row_def trim_key_def Let_def)

lemma keys_normalize_row:
  "set (dict_keys (normalize_row h ii r)) =
     set (dict_keys r) \<union> (if h then {''ordinal''} else {})"
  by (simp add: normalize_row_alt keys_trim_key dict_keys_dict_set)


lemma normalize_rows_length:
  "normalize_rows h ii rows (st, atS) = (st', atS') \<Longrightarrow> length st' = length st"
  by (induction rows arbitrary: ii st atS) (auto simp: Let_def)

lemma normalize_rows_frame:
  "normalize_rows h ii rows (st, atS) = (st', atS') \<Longrightarrow> a \<notin> set rows \<Longrightarrow> st' ! a = st ! a"
  by (induction rows arbitrary: ii st atS) (auto simp: Let_def)

lemma keys_list_update:
  "set (dict_keys (st[b := normalize_row h ii (st ! b)] ! a)) =
     set (dict_keys (st ! a)) \<union> (if h \<and> a = b \<and> b < length st then {''ordinal''} else {})"
  by (cases "a = b"; cases "b < length st") (simp_all add: keys_normalize_row list_update_beyond)

lemma normalize_rows_keys:
  "normalize_rows h ii rows (st, atS) = (st', atS') \<Longrightarrow>
     set (dict_keys (st' ! a)) =
       set (dict_keys (st ! a)) \<union> (if h \<and> a \<in> set rows \<and> a < length st then {''ordinal''} else {})"
proof (induction rows arbitrary: ii st atS)
  case Nil
  then show ?case by simp
next
  case (Cons b rows)
  let ?st1 = "st[b := normalize_row h ii (st ! b)]"
  from Cons.prems have rec: "normalize_rows h (ii + 1) rows (?st1, atS @ dict_keys (?st1 ! b)) = (st', atS')"
    by (simp add: Let_def)
  from Cons.IH [OF rec] have
    "set (dict_keys (st' ! a)) = set (dict_keys (?st1 ! a)) \<union>
       (if h \<and> a \<in> set rows \<and> a < length st then {''ordinal''} else {})"
    by simp
  then show ?case unfolding keys_list_update by auto
qed

lemma normalize_rows_atS:
  "normalize_rows h ii rows (st, atS) = (st', atS') \<Longrightarrow>
     set atS' = set atS \<union> (\<Union>a \<in> set rows. set (dict_keys (st' ! a)))"
proof (induction rows arbitrary: ii st atS)
  case Nil
  then show ?case by simp
next
  case (Cons b rows)
  let ?st1 = "st[b := normalize_row h ii (st ! b)]"
  from Cons.prems have rec: "normalize_rows h (ii + 1) rows (?st1, atS @ dict_keys (?st1 ! b)) = (st', atS')"
    by (simp add: Let_def)
  have same: "set (dict_keys (st' ! b)) = set (dict_keys (?st1 ! b))"
    unfolding normalize_rows_keys [OF rec, of b] keys_list_update by auto
  from Cons.IH [OF rec] show ?case by (auto simp: same)
qed

lemma normalize_rows_nth:
  "normalize_rows h ii rows (st, atS) = (st', atS') \<Longrightarrow> distinct rows \<Longrightarrow>
   \<forall>a \<in> set rows. a < length st \<Longrightarrow> i < length rows \<Longrightarrow>
     st' ! (rows ! i) = normalize_row h (ii + int i) (st ! (rows ! i))"
proof (induction rows arbitrary: ii st atS i)
  case Nil
  then show ?case by simp
next
  case (Cons b rows)
  let ?st1 = "st[b := normalize_row h ii (st ! b)]"
  from Cons.prems(1) have rec: "normalize_rows h (ii + 1) rows (?st1, atS @ dict_keys (?st1 ! b)) = (st', atS')"
    by (simp add: Let_def)
  show ?case
  proof (cases i)
    case 0
    from Cons.prems(2) have "b \<notin> set rows" by simp
    from normalize_rows_frame [OF rec this] Cons.prems(3) 0 show ?thesis by simp
  next
    case (Suc n)
    with Cons.prems have n: "n < length rows" and d: "distinct rows"
      and r: "\<forall>a \<in> set rows. a < length ?st1" and ne: "rows ! n \<noteq> b"
      by auto
    from Cons.IH [OF rec d r n] ne Suc show ?thesis by (simp add: add.assoc)
  qed
qed

section \<open>Building one category\<close>

lemma build_category_SomeD:
  assumes "build_category R elName rowList st = Inr (Some aCat, st1)"
  obtains ats atS where "rowList \<noteq> []" and "dict_get (attribD R) elName = Some ats"
    and "ats \<noteq> []" and "elName \<noteq> ''programs''"
    and "normalize_rows (''ordinal'' \<in> set ats) 1 rowList (st, []) = (st1, atS)"
    and "sorted_attributes R atS = Inr (attributeNameList aCat)"
    and "aCat = DataCategory_init elName (attributeNameList aCat) (map (\<lambda>a. st1 ! a) rowList)"
proof -
  from assms have ne: "rowList \<noteq> []"
    by (cases rowList) (simp_all add: build_category_def)
  from assms ne obtain ats where ats: "dict_get (attribD R) elName = Some ats"
    by (cases "dict_get (attribD R) elName") (simp_all add: build_category_def)
  from assms ne ats have skip: "ats \<noteq> [] \<and> elName \<noteq> ''programs''"
    by (cases "ats = [] \<or> elName = ''programs''") (simp_all add: build_category_def)
  obtain st2 atS where nr: "normalize_rows (''ordinal'' \<in> set ats) 1 rowList (st, []) = (st2, atS)"
    by (cases "normalize_rows (''ordinal'' \<in> set ats) 1 rowList (st, [])") simp
  from assms ne ats skip nr obtain L where L: "sorted_attributes R atS = Inr L"
    by (cases "sorted_attributes R atS") (simp_all add: build_category_def)
  from assms ne ats skip nr L have eq: "aCat = DataCategory_init elName L (map (\<lambda>a. st2 ! a) rowList)"
    and st: "st1 = st2"
    by (auto simp add: build_category_def)
  from eq have "attributeNameList aCat = L" by (simp add: DataCategory_init_def)
  with that [OF ne ats] skip nr L eq st show ?thesis by simp
qed

lemma build_category_Inl:
  assumes "build_category R elName rowList st = Inl e"
  shows "e = KeyError"
proof (cases "rowList = []")
  case True
  with assms show ?thesis by (simp add: build_category_def)
next
  case ne: False
  show ?thesis
  proof (cases "dict_get (attribD R) elName")
    case None
    with assms ne show ?thesis by (simp add: build_category_def)
  next
    case (Some ats)
    show ?thesis
    proof (cases "ats = [] \<or> elName = ''programs''")
      case True
      with assms ne Some show ?thesis by (auto simp add: build_category_def)
    next
      case False
      obtain st2 atS where nr: "normalize_rows (''ordinal'' \<in> set ats) 1 rowList (st, []) = (st2, atS)"
        by (cases "normalize_rows (''ordinal'' \<in> set ats) 1 rowList (st, [])") simp
      show ?thesis
      proof (cases "sorted_attributes R atS")
        case (Inl x)
        with assms ne Some False nr have "x = e" by (simp add: build_category_def)
        with Inl sorted_attributes_Inl [of R atS e] show ?thesis by simp
      next
        case (Inr L)
        with assms ne Some False nr show ?thesis by (simp add: build_category_def)
      qed
    qed
  qed
qed

lemma build_category_store:
  assumes "build_category R elName rowList st = Inr (x, st1)"
  shows "length st1 = length st"
    and "a \<notin> set rowList \<Longrightarrow> st1 ! a = st ! a"
    and "set (dict_keys (st ! a)) \<subseteq> set (dict_keys (st1 ! a))"
proof -
  have "length st1 = length st \<and> (a \<notin> set rowList \<longrightarrow> st1 ! a = st ! a)
      \<and> set (dict_keys (st ! a)) \<subseteq> set (dict_keys (st1 ! a))"
  proof (cases x)
    case None
    have "st1 = st"
    proof (cases "rowList = []")
      case True
      with assms show ?thesis by (simp add: build_category_def)
    next
      case ne: False
      show ?thesis
      proof (cases "dict_get (attribD R) elName")
        case None
        with assms ne show ?thesis by (simp add: build_category_def)
      next
        case (Some ats)
        show ?thesis
        proof (cases "ats = [] \<or> elName = ''programs''")
          case True
          with assms ne Some show ?thesis by (auto simp add: build_category_def)
        next
          case False
          obtain st2 atS where nr:
            "normalize_rows (''ordinal'' \<in> set ats) 1 rowList (st, []) = (st2, atS)"
            by (cases "normalize_rows (''ordinal'' \<in> set ats) 1 rowList (st, [])") simp
          from assms ne Some False nr None show ?thesis
            by (cases "sorted_attributes R atS") (simp_all add: build_category_def)
        qed
      qed
    qed
    then show ?thesis by simp
  next
    case (Some aCat)
    with assms have b: "build_category R elName rowList st = Inr (Some aCat, st1)" by simp
    from b obtain ats atS where
      nr: "normalize_rows (''ordinal'' \<in> set ats) 1 rowList (st, []) = (st1, atS)"
      by (rule build_category_SomeD)
    from normalize_rows_length [OF nr] normalize_rows_frame [OF nr, of a]
      normalize_rows_keys [OF nr, of a]
    show ?thesis by auto
  qed
  then show "length st1 = length st"
    and "a \<notin> set rowList \<Longrightarrow> st1 ! a = st ! a"
    and "set (dict_keys (st ! a)) \<subseteq> set (dict_keys (st1 ! a))"
    by simp_all
qed

lemma build_category_missing:
  assumes "a \<in> set rowList" and "dict_get (attribD R) elName = Some ats"
    and "ats \<noteq> []" and "elName \<noteq> ''programs''"
    and "ky \<in> set (dict_keys (st ! a))" and "dict_get (atOrdD R) ky = None"
  shows "build_category R elName rowList st = Inl KeyError"
proof -
  from assms(1) have ne: "rowList \<noteq> []" by auto
  obtain st2 atS where nr: "normalize_rows (''ordinal'' \<in> set ats) 1 rowList (st, []) = (st2, atS)"
    by (cases "normalize_rows (''ordinal'' \<in> set ats) 1 rowList (st, [])") simp
  from normalize_rows_keys [OF nr, of a] assms(5) have "ky \<in> set (dict_keys (st2 ! a))"
    by simp
  with normalize_rows_atS [OF nr] assms(1) have "ky \<in> set atS" by auto
  from sorted_attributes_missing [OF this assms(6)] ne assms(2,3,4) nr
  show ?thesis by (simp add: build_category_def)
qed

lemma build_categories_missing:
  assumes "(elName, rowList) \<in> set rD" and "a \<in> set rowList"
    and "dict_get (attribD R) elName = Some ats"
    and "ats \<noteq> []" and "elName \<noteq> ''programs''"
    and "ky \<in> set (dict_keys (st ! a))" and "dict_get (atOrdD R) ky = None"
  shows "build_categories R rD (st, cur) = Inl KeyError"
  using assms(1,6)
proof (induction rD arbitrary: st cur)
  case Nil
  then show ?case by simp
next
  case (Cons p rD)
  obtain n rows where p: "p = (n, rows)" by (cases p)
  show ?case
  proof (cases "build_category R n rows st")
    case (Inl e)
    with build_category_Inl [of R n rows st e] have "build_category R n rows st = Inl KeyError"
      by simp
    with p show ?thesis by simp
  next
    case (Inr r)
    obtain x st1 where r: "r = (x, st1)" by (cases r)
    have notit: "(n, rows) \<noteq> (elName, rowList)"
    proof
      assume "(n, rows) = (elName, rowList)"
      with build_category_missing [OF assms(2,3,4,5) Cons.prems(2) assms(7)] Inr
      show False by simp
    qed
    with Cons.prems(1) p have mem: "(elName, rowList) \<in> set rD" by auto
    from Inr r build_category_store(3) [of R n rows st x st1 a] Cons.prems(2)
    have ky: "ky \<in> set (dict_keys (st1 ! a))" by auto
    have step: "build_categories R ((n, rows) # rD) (st, cur) =
        build_categories R rD (st1, case x of None \<Rightarrow> cur | Some aCat \<Rightarrow> container_append cur aCat)"
      using Inr r by (cases x) simp_all
    from Cons.IH [OF mem ky] step p show ?thesis by simp
  qed
qed

lemma setdefault_append_nonempty:
  "dict_get (setdefault_append d k x) c = Some l \<Longrightarrow>
     (\<And>c l. dict_get d c = Some l \<Longrightarrow> l \<noteq> []) \<Longrightarrow> l \<noteq> []"
  by (cases "c = k") (auto simp: dict_get_setdefault_append)

lemma fold_setdefault_nonempty:
  "dict_get (fold (\<lambda>(catName, atName) d. setdefault_append d catName atName) ks d) c = Some l \<Longrightarrow>
     (\<And>c l. dict_get d c = Some l \<Longrightarrow> l \<noteq> []) \<Longrightarrow> l \<noteq> []"
proof (induction ks arbitrary: d)
  case Nil
  then show ?case by simp
next
  case (Cons k ks)
  obtain cn an where k: "k = (cn, an)" by (cases k)
  show ?case
  proof (rule Cons.IH)
    from Cons.prems(1) k
    show "dict_get (fold (\<lambda>(catName, atName) d. setdefault_append d catName atName) ks
        (setdefault_append d cn an)) c = Some l" by simp
  next
    fix c' l' assume "dict_get (setdefault_append d cn an) c' = Some l'"
    then show "l' \<noteq> []" using Cons.prems(2) by (rule setdefault_append_nonempty)
  qed
qed

lemma attribD_nonempty: "dict_get (attribD R) catName = Some ats \<Longrightarrow> ats \<noteq> []"
  unfolding attribD_def by (erule fold_setdefault_nonempty) (simp add: dict_get_def)

section \<open>Renaming\<close>

lemma dict_get_fold_dict_set:
  "dict_get (fold (\<lambda>a d. dict_set d a (f a)) L d0) a =
     (if a \<in> set L then Some (f a) else dict_get d0 a)"
  by (induction L arbitrary: d0) (simp_all add: dict_get_dict_set)

lemma rename_category_attributes:
  "attributeNameList (rename_category R catName catObj) =
     map (mapAtName R catName) (attributeNameList catObj)"
  by (simp add: rename_category_def renameAttributes_def setName_def Let_def
      dict_get_fold_dict_set)


lemma rename_category_data:
  "data (rename_category R catName catObj) = data catObj"
  by (simp add: rename_category_def renameAttributes_def setName_def Let_def)

section \<open>The container\<close>








section \<open>The row of a child\<close>

lemma dict_get_Nil: "dict_get [] k = None"
  by (simp add: dict_get_def)

lemma dict_get_Cons:
  "dict_get ((k1, v1) # e) k = (if k = k1 then Some v1 else dict_get e k)"
  by (simp add: dict_get_def)

lemma distinct_keys_dict_set:
  "distinct (dict_keys d) \<Longrightarrow> distinct (dict_keys (dict_set d k v))"
proof (induction d)
  case Nil
  then show ?case by (simp add: dict_keys_def)
next
  case (Cons p d)
  have "set (map fst (dict_set d k v)) = insert k (set (map fst d))"
    using dict_keys_dict_set [of d k v] by (simp add: dict_keys_def)
  with Cons show ?case by (auto simp: dict_keys_def)
qed

lemma fold_dict_set_option:
  "dict_get (fold (\<lambda>k acc. case dict_get m k of None \<Rightarrow> acc | Some v \<Rightarrow> dict_set acc k v) ks d) k =
     (if k \<in> set ks \<and> dict_get m k \<noteq> None then dict_get m k else dict_get d k)"
  by (induction ks arbitrary: d) (auto simp: dict_get_dict_set split: option.splits)

lemma fold_dict_set_option_distinct:
  "distinct (dict_keys d) \<Longrightarrow>
   distinct (dict_keys (fold (\<lambda>k acc. case dict_get m k of None \<Rightarrow> acc | Some v \<Rightarrow> dict_set acc k v) ks d))"
  by (induction ks arbitrary: d) (auto simp: distinct_keys_dict_set split: option.splits)

lemma dict_get_dict_copy: "dict_get (dict_copy d) k = dict_get d k"
proof -
  have "k \<notin> set (dict_keys d) \<Longrightarrow> dict_get d k = None"
    by (simp add: dict_in_keys_get)
  then show ?thesis
    unfolding dict_copy_def fold_dict_set_option by (auto simp: dict_get_Nil)
qed

lemma dict_get_cardinal_part:
  "dict_get (cardinal_part m) k = (if k \<in> set atL then dict_get m k else None)"
  unfolding cardinal_part_def fold_dict_set_option
  by (auto simp: dict_in_iff dict_get_Nil)

lemma distinct_cardinal_part: "distinct (dict_keys (cardinal_part m))"
  unfolding cardinal_part_def by (rule fold_dict_set_option_distinct) (simp add: dict_keys_def)

lemma dict_get_dict_update:
  "distinct (dict_keys e) \<Longrightarrow>
     dict_get (dict_update d e) k = (case dict_get e k of None \<Rightarrow> dict_get d k | Some v \<Rightarrow> Some v)"
proof (induction e arbitrary: d)
  case Nil
  then show ?case by (simp add: dict_update_def dict_get_def)
next
  case (Cons p e)
  obtain k1 v1 where p: "p = (k1, v1)" by (cases p)
  from Cons.prems p have d: "distinct (dict_keys e)" and nin: "k1 \<notin> set (dict_keys e)"
    by (simp_all add: dict_keys_def)
  have unf: "dict_update d (p # e) = dict_update (dict_set d k1 v1) e"
    by (simp add: dict_update_def p)
  from nin have none: "dict_get e k1 = None" by (simp add: dict_in_keys_get)
  show ?case
  proof (cases "k = k1")
    case True
    with none show ?thesis unfolding unf Cons.IH [OF d]
      by (simp add: dict_get_dict_set p dict_get_Cons split: option.splits)
  next
    case False
    then show ?thesis unfolding unf Cons.IH [OF d]
      by (simp add: dict_get_dict_set p dict_get_Cons split: option.splits)
  qed
qed

lemma dict_get_child_row:
  "dict_get (child_row msgD ch st) k =
     (case msgD of None \<Rightarrow> dict_get (st ! attrib ch) k
      | Some a \<Rightarrow> if k \<in> set atL \<and> dict_get (st ! a) k \<noteq> None
                  then dict_get (st ! a) k else dict_get (st ! attrib ch) k)"
  unfolding child_row_def dict_get_dict_update [OF distinct_cardinal_part]
  by (cases msgD) (auto simp: dict_get_cardinal_part dict_get_dict_copy dict_get_Nil split: option.splits)

section \<open>Flattening\<close>

lemma in_table_setdefault_append:
  "in_table (setdefault_append rD t a) t' a' \<longleftrightarrow> in_table rD t' a' \<or> (t' = t \<and> a' = a)"
  by (cases "dict_get rD t") (auto simp: in_table_def dict_get_setdefault_append)

lemma in_table_fold_gch:
  "in_table (fold extract_gch gs rD) t a \<longleftrightarrow>
     in_table rD t a \<or> (\<exists>g \<in> set gs. tag g = t \<and> attrib g = a)"
  by (induction gs arbitrary: rD) (auto simp: extract_gch_def in_table_setdefault_append)

lemma extract_ch_eq:
  "extract_ch msgD ch (rD, st) =
     (fold extract_gch (children ch) (setdefault_append rD (tag ch) (length st)),
      st @ [child_row msgD ch st])"
  by (simp add: extract_ch_def alloc_def Let_def)

lemma child_row_append:
  assumes "attrib ch < length st" and "\<And>m. msgD = Some m \<Longrightarrow> m < length st"
  shows "child_row msgD ch (st @ xs) = child_row msgD ch st"
  using assms by (cases msgD) (simp_all add: child_row_def nth_append)

lemma fold_extract_ch_store:
  "fold (extract_ch msgD) chs (rD, st) = (rD', st') \<Longrightarrow>
     \<exists>xs. st' = st @ xs \<and> length xs = length chs"
proof (induction chs arbitrary: rD st)
  case Nil
  then show ?case by simp
next
  case (Cons c chs)
  from Cons.prems have "fold (extract_ch msgD) chs
      (fold extract_gch (children c) (setdefault_append rD (tag c) (length st)),
       st @ [child_row msgD c st]) = (rD', st')"
    by (simp add: extract_ch_eq)
  from Cons.IH [OF this] obtain xs where "st' = (st @ [child_row msgD c st]) @ xs"
    and "length xs = length chs" by blast
  then have "st' = st @ (child_row msgD c st # xs) \<and> length (child_row msgD c st # xs) = length (c # chs)"
    by simp
  then show ?case by blast
qed

lemma fold_extract_ch_mono:
  "fold (extract_ch msgD) chs (rD, st) = (rD', st') \<Longrightarrow> in_table rD t a \<Longrightarrow> in_table rD' t a"
proof (induction chs arbitrary: rD st)
  case Nil
  then show ?case by simp
next
  case (Cons c chs)
  from Cons.prems(1) have f: "fold (extract_ch msgD) chs
      (fold extract_gch (children c) (setdefault_append rD (tag c) (length st)),
       st @ [child_row msgD c st]) = (rD', st')"
    by (simp add: extract_ch_eq)
  from Cons.prems(2)
  have "in_table (fold extract_gch (children c) (setdefault_append rD (tag c) (length st))) t a"
    by (simp add: in_table_fold_gch in_table_setdefault_append)
  with Cons.IH [OF f] show ?case .
qed

lemma fold_extract_ch_child:
  assumes "fold (extract_ch msgD) chs (rD, st) = (rD', st')"
    and "ch \<in> set chs" and "attrib ch < length st"
    and "\<And>m. msgD = Some m \<Longrightarrow> m < length st"
  shows "\<exists>a. length st \<le> a \<and> a < length st' \<and> in_table rD' (tag ch) a
    \<and> st' ! a = child_row msgD ch st
    \<and> (\<forall>g \<in> set (children ch). in_table rD' (tag g) (attrib g))"
  using assms
proof (induction chs arbitrary: rD st)
  case Nil
  then show ?case by simp
next
  case (Cons c chs)
  let ?rD1 = "fold extract_gch (children c) (setdefault_append rD (tag c) (length st))"
  let ?st1 = "st @ [child_row msgD c st]"
  from Cons.prems(1) have f: "fold (extract_ch msgD) chs (?rD1, ?st1) = (rD', st')"
    by (simp add: extract_ch_eq)
  from fold_extract_ch_store [OF f] obtain xs where st': "st' = ?st1 @ xs" by blast
  show ?case
  proof (cases "ch = c")
    case True
    have 1: "in_table ?rD1 (tag c) (length st)"
      by (simp add: in_table_fold_gch in_table_setdefault_append)
    have 2: "\<forall>g \<in> set (children c). in_table ?rD1 (tag g) (attrib g)"
      by (auto simp: in_table_fold_gch)
    from 1 2 fold_extract_ch_mono [OF f]
    have "in_table rD' (tag c) (length st) \<and> (\<forall>g \<in> set (children c). in_table rD' (tag g) (attrib g))"
      by blast
    moreover have "st' ! length st = child_row msgD c st" by (simp add: st' nth_append)
    moreover have "length st < length st'" by (simp add: st')
    ultimately show ?thesis using True by auto
  next
    case False
    with Cons.prems(2) have mem: "ch \<in> set chs" by simp
    from Cons.prems(3) have r1: "attrib ch < length ?st1" by simp
    have r2: "\<And>m. msgD = Some m \<Longrightarrow> m < length ?st1"
      using Cons.prems(4) by fastforce
    from Cons.IH [OF f mem r1 r2] obtain a where
      a: "length ?st1 \<le> a" "a < length st'" "in_table rD' (tag ch) a"
      "st' ! a = child_row msgD ch ?st1"
      "\<forall>g \<in> set (children ch). in_table rD' (tag g) (attrib g)"
      by blast
    from child_row_append [OF Cons.prems(3,4)] a(4)
    have eq: "st' ! a = child_row msgD ch st" by simp
    from a(1) have le: "length st \<le> a" by simp
    from le a(2,3) eq a(5) show ?thesis by blast
  qed
qed

lemma extract_el_eq:
  "extract_el el (rD, st) =
     fold (extract_ch (msgD_of el)) (children el) (setdefault_append rD (tag el) (attrib el), st)"
  by (simp add: extract_el_def msgD_of_def Let_def)

lemma extract_el_store:
  "extract_el el (rD, st) = (rD', st') \<Longrightarrow> \<exists>xs. st' = st @ xs \<and> length xs = length (children el)"
  unfolding extract_el_eq by (rule fold_extract_ch_store)

lemma extract_el_mono:
  assumes "extract_el el (rD, st) = (rD', st')" and "in_table rD t a"
  shows "in_table rD' t a"
proof -
  from assms(2) have "in_table (setdefault_append rD (tag el) (attrib el)) t a"
    by (simp add: in_table_setdefault_append)
  with assms(1) show ?thesis unfolding extract_el_eq by (rule fold_extract_ch_mono)
qed

lemma extract_el_top:
  assumes "extract_el el (rD, st) = (rD', st')"
  shows "in_table rD' (tag el) (attrib el)"
proof -
  have "in_table (setdefault_append rD (tag el) (attrib el)) (tag el) (attrib el)"
    by (simp add: in_table_setdefault_append)
  with assms show ?thesis unfolding extract_el_eq by (rule fold_extract_ch_mono)
qed

lemma extract_el_child:
  assumes "extract_el el (rD, st) = (rD', st')"
    and "ch \<in> set (children el)" and "attrib el < length st" and "attrib ch < length st"
  shows "\<exists>a. length st \<le> a \<and> a < length st' \<and> in_table rD' (tag ch) a
    \<and> st' ! a = child_row (msgD_of el) ch st
    \<and> (\<forall>g \<in> set (children ch). in_table rD' (tag g) (attrib g))"
proof -
  have m: "\<And>m. msgD_of el = Some m \<Longrightarrow> m < length st"
    using assms(3) by (auto simp: msgD_of_def split: if_splits)
  from assms(1) have f: "fold (extract_ch (msgD_of el)) (children el)
      (setdefault_append rD (tag el) (attrib el), st) = (rD', st')"
    by (simp add: extract_el_eq)
  from f assms(2,4) m show ?thesis by (rule fold_extract_ch_child)
qed

lemma fold_extract_el_store:
  "fold extract_el els (rD, st) = (rD', st') \<Longrightarrow> \<exists>xs. st' = st @ xs"
proof (induction els arbitrary: rD st)
  case Nil
  then show ?case by simp
next
  case (Cons e els)
  obtain rD1 st1 where s: "extract_el e (rD, st) = (rD1, st1)" by (cases "extract_el e (rD, st)")
  with Cons.prems have f: "fold extract_el els (rD1, st1) = (rD', st')" by simp
  from extract_el_store [OF s] Cons.IH [OF f] show ?case by auto
qed

lemma fold_extract_el_mono:
  "fold extract_el els (rD, st) = (rD', st') \<Longrightarrow> in_table rD t a \<Longrightarrow> in_table rD' t a"
proof (induction els arbitrary: rD st)
  case Nil
  then show ?case by simp
next
  case (Cons e els)
  obtain rD1 st1 where s: "extract_el e (rD, st) = (rD1, st1)" by (cases "extract_el e (rD, st)")
  with Cons.prems have f: "fold extract_el els (rD1, st1) = (rD', st')" by simp
  from extract_el_mono [OF s Cons.prems(2)] Cons.IH [OF f] show ?case by simp
qed

lemma fold_extract_el_child:
  assumes "fold extract_el els (rD, st) = (rD', st')"
    and "el \<in> set els" and "ch \<in> set (children el)"
    and "attrib el < length st" and "attrib ch < length st"
    and "\<forall>g \<in> set (children ch). attrib g < length st"
  shows "in_table rD' (tag el) (attrib el) \<and> st' ! attrib el = st ! attrib el
    \<and> (\<exists>a. length st \<le> a \<and> a < length st' \<and> in_table rD' (tag ch) a
         \<and> st' ! a = child_row (msgD_of el) ch st)
    \<and> (\<forall>g \<in> set (children ch). in_table rD' (tag g) (attrib g) \<and> st' ! attrib g = st ! attrib g)"
  using assms(1,2,4,5,6)
proof (induction els arbitrary: rD st)
  case Nil
  then show ?case by simp
next
  case (Cons e els)
  obtain rD1 st1 where s: "extract_el e (rD, st) = (rD1, st1)" by (cases "extract_el e (rD, st)")
  with Cons.prems(1) have f: "fold extract_el els (rD1, st1) = (rD', st')" by simp
  from extract_el_store [OF s] obtain xs where st1: "st1 = st @ xs" by blast
  from fold_extract_el_store [OF f] obtain ys where st': "st' = st1 @ ys" by blast
  have keep: "\<And>b. b < length st \<Longrightarrow> st' ! b = st ! b"
    by (simp add: st' st1 nth_append)
  show ?case
  proof (cases "el = e")
    case True
    from extract_el_child [OF s] True assms(3) Cons.prems(3,4) obtain a where
      a: "length st \<le> a" "a < length st1" "in_table rD1 (tag ch) a"
         "st1 ! a = child_row (msgD_of el) ch st"
         "\<forall>g \<in> set (children ch). in_table rD1 (tag g) (attrib g)"
      by blast
    from a(2) have "st' ! a = st1 ! a" by (simp add: st' nth_append)
    with a(4) have row: "st' ! a = child_row (msgD_of el) ch st" by simp
    from a(2) have lt: "a < length st'" by (simp add: st')
    from extract_el_top [OF s] True have "in_table rD1 (tag el) (attrib el)" by simp
    with fold_extract_el_mono [OF f] have top: "in_table rD' (tag el) (attrib el)" by blast
    from a(3) fold_extract_el_mono [OF f] have tab: "in_table rD' (tag ch) a" by blast
    from a(5) fold_extract_el_mono [OF f]
    have g: "\<forall>g \<in> set (children ch). in_table rD' (tag g) (attrib g)" by blast
    from top keep [OF Cons.prems(3)] a(1) lt tab row g keep Cons.prems(5)
    show ?thesis by blast
  next
    case False
    with Cons.prems(2) have mem: "el \<in> set els" by simp
    from Cons.prems(3,4,5) have r: "attrib el < length st1" "attrib ch < length st1"
      "\<forall>g \<in> set (children ch). attrib g < length st1"
      by (auto simp: st1)
    from Cons.IH [OF f mem r] obtain a where
      i: "in_table rD' (tag el) (attrib el)" "st' ! attrib el = st1 ! attrib el"
         "length st1 \<le> a" "a < length st'" "in_table rD' (tag ch) a"
         "st' ! a = child_row (msgD_of el) ch st1"
         "\<forall>g \<in> set (children ch). in_table rD' (tag g) (attrib g) \<and> st' ! attrib g = st1 ! attrib g"
      by blast
    have m: "\<And>m. msgD_of el = Some m \<Longrightarrow> m < length st"
      using Cons.prems(3) by (auto simp: msgD_of_def split: if_splits)
    from child_row_append [OF Cons.prems(4) m, where xs = xs] i(6)
    have row: "st' ! a = child_row (msgD_of el) ch st" by (simp add: st1)
    from i(3) have le: "length st \<le> a" by (simp add: st1)
    from i(1) keep [OF Cons.prems(3)] le i(4,5) row i(7) keep Cons.prems(5)
    show ?thesis by blast
  qed
qed

section \<open>Parsing\<close>

lemma upt_glue: "a \<le> b \<Longrightarrow> b \<le> c \<Longrightarrow> [a..<b] @ [b..<c] = [a..<c]"
  by (metis le_Suc_ex upt_add_eq_append)

lemma load_addrs:
  "load x st = (e, st') \<Longrightarrow>
     length st < length st' \<and> take (length st) st' = st \<and> addrs_of e = [length st..<length st']"
  "load_list xs st = (es, st') \<Longrightarrow>
     length st \<le> length st' \<and> take (length st) st' = st
       \<and> concat (map addrs_of es) = [length st..<length st']"
proof (induction x st and xs st arbitrary: e st' and es st' rule: load_load_list.induct)
  case (1 t kvs cs st)
  obtain es st2 where l: "load_list cs (st @ [attrib_dict kvs]) = (es, st2)"
    by (cases "load_list cs (st @ [attrib_dict kvs])")
  from "1.prems" l have e: "e = Element t (length st) es" and s: "st' = st2"
    by (simp_all add: alloc_def)
  from "1.IH" [OF refl _ l, of "length st"]
  have ih: "Suc (length st) \<le> length st2" "take (Suc (length st)) st2 = st @ [attrib_dict kvs]"
    "concat (map addrs_of es) = [Suc (length st)..<length st2]"
    by (simp_all add: alloc_def)
  from ih(2) have "take (length st) (take (Suc (length st)) st2) = st" by simp
  then have tk: "take (length st) st2 = st" by (simp add: min_def)
  from ih(1) have "[length st..<length st2] = length st # [Suc (length st)..<length st2]"
    by (simp add: upt_conv_Cons)
  with ih e s tk show ?case by simp
next
  case (2 st)
  then show ?case by simp
next
  case (3 c cs st)
  obtain e1 st1 where l1: "load c st = (e1, st1)" by (cases "load c st")
  obtain es2 st2 where l2: "load_list cs st1 = (es2, st2)" by (cases "load_list cs st1")
  from "3.prems" l1 l2 have es: "es = e1 # es2" and s: "st' = st2" by simp_all
  from "3.IH"(1) [OF l1] have a: "length st < length st1" "take (length st) st1 = st"
    "addrs_of e1 = [length st..<length st1]" by simp_all
  from "3.IH"(2) [OF refl l1 [symmetric] l2] have b: "length st1 \<le> length st2"
    "take (length st1) st2 = st1" "concat (map addrs_of es2) = [length st1..<length st2]"
    by simp_all
  from a(2) b(2) have "take (length st) (take (length st1) st2) = st" by simp
  with a(1) have tk: "take (length st) st2 = st" by (simp add: min_def)
  from a(1) b(1) have "[length st..<length st1] @ [length st1..<length st2] = [length st..<length st2]"
    by (intro upt_glue) simp_all
  with a b es s tk show ?case by simp
qed

lemma parse_addrs:
  assumes "parse doc = (xrt, st0)"
  shows "addrs_of xrt = [0..<length st0]"
  using load_addrs(1) [of doc "[]" xrt st0] assms by (simp add: parse_def)

lemma attrib_in_addrs: "attrib e \<in> set (addrs_of e)"
  by (cases e) simp

lemma child_addrs_subset: "c \<in> set (children e) \<Longrightarrow> set (addrs_of c) \<subseteq> set (addrs_of e)"
  by (cases e) auto

lemma parse_in_range:
  assumes "parse doc = (xrt, st0)" and "el \<in> set (children xrt)"
  shows "attrib el < length st0"
    and "ch \<in> set (children el) \<Longrightarrow> attrib ch < length st0"
    and "ch \<in> set (children el) \<Longrightarrow> g \<in> set (children ch) \<Longrightarrow> attrib g < length st0"
proof -
  have r: "\<And>a. a \<in> set (addrs_of xrt) \<Longrightarrow> a < length st0"
    by (simp add: parse_addrs [OF assms(1)])
  from assms(2) have el: "set (addrs_of el) \<subseteq> set (addrs_of xrt)" by (rule child_addrs_subset)
  with attrib_in_addrs [of el] r show "attrib el < length st0" by blast
  {
    assume c: "ch \<in> set (children el)"
    then have ch: "set (addrs_of ch) \<subseteq> set (addrs_of el)" by (rule child_addrs_subset)
    with el attrib_in_addrs [of ch] r show "attrib ch < length st0" by blast
    assume "g \<in> set (children ch)"
    then have "set (addrs_of g) \<subseteq> set (addrs_of ch)" by (rule child_addrs_subset)
    with ch el attrib_in_addrs [of g] r show "attrib g < length st0" by blast
  }
qed

section \<open>The addresses held in the table\<close>



















lemma build_categories_store:
  "build_categories R rD (st, cur) = Inr (st', cur') \<Longrightarrow>
     length st' = length st \<and> (a \<notin> set (table_addrs rD) \<longrightarrow> st' ! a = st ! a)"
proof (induction rD arbitrary: st cur)
  case Nil
  then show ?case by simp
next
  case (Cons p rD)
  obtain m rows where p: "p = (m, rows)" by (cases p)
  from Cons.prems p obtain x st1 where b: "build_category R m rows st = Inr (x, st1)"
    by (cases "build_category R m rows st") auto
  from Cons.prems p b have
    "build_categories R rD (st1, case x of None \<Rightarrow> cur | Some aCat \<Rightarrow> container_append cur aCat)
       = Inr (st', cur')"
    by (cases x) simp_all
  from Cons.IH [OF this] build_category_store(1) [OF b] build_category_store(2) [OF b, of a] p
  show ?case by (auto simp: table_addrs_def)
qed

section \<open>What building does to the rows\<close>

lemma build_category_None:
  assumes "build_category R elName rowList st = Inr (None, st1)"
  shows "st1 = st"
proof (cases "rowList = []")
  case True
  with assms show ?thesis by (simp add: build_category_def)
next
  case ne: False
  show ?thesis
  proof (cases "dict_get (attribD R) elName")
    case None
    with assms ne show ?thesis by (simp add: build_category_def)
  next
    case (Some ats)
    show ?thesis
    proof (cases "ats = [] \<or> elName = ''programs''")
      case True
      with assms ne Some show ?thesis by (auto simp add: build_category_def)
    next
      case False
      obtain st2 atS where nr:
        "normalize_rows (''ordinal'' \<in> set ats) 1 rowList (st, []) = (st2, atS)"
        by (cases "normalize_rows (''ordinal'' \<in> set ats) 1 rowList (st, [])") simp
      from assms ne Some False nr show ?thesis
        by (cases "sorted_attributes R atS") (simp_all add: build_category_def)
    qed
  qed
qed

lemma build_category_rows:
  assumes "build_category R elName rowList st = Inr (Some aCat, st1)"
    and "distinct rowList" and "\<forall>a \<in> set rowList. a < length st"
  obtains ats where "dict_get (attribD R) elName = Some ats"
    and "\<forall>i < length rowList.
           st1 ! (rowList ! i) = normalize_row (''ordinal'' \<in> set ats) (int i + 1) (st ! (rowList ! i))"
    and "data aCat = map (\<lambda>a. map (dict_get (st1 ! a)) (attributeNameList aCat)) rowList"
proof -
  from assms(1) obtain ats atS where
    ats: "dict_get (attribD R) elName = Some ats"
    and nr: "normalize_rows (''ordinal'' \<in> set ats) 1 rowList (st, []) = (st1, atS)"
    and cat: "aCat = DataCategory_init elName (attributeNameList aCat) (map (\<lambda>a. st1 ! a) rowList)"
    by (rule build_category_SomeD)
  have rows: "\<forall>i < length rowList.
           st1 ! (rowList ! i) = normalize_row (''ordinal'' \<in> set ats) (int i + 1) (st ! (rowList ! i))"
    using normalize_rows_nth [OF nr assms(2,3)] by (simp add: add.commute)
  have "data aCat = map (\<lambda>rowD. map (dict_get rowD) (attributeNameList aCat)) (map (\<lambda>a. st1 ! a) rowList)"
    by (subst cat) (simp add: DataCategory_init_def)
  then have data: "data aCat = map (\<lambda>a. map (dict_get (st1 ! a)) (attributeNameList aCat)) rowList"
    by (simp add: comp_def)
  from that [OF ats rows data] show ?thesis .
qed

lemma build_category_touch:
  assumes "build_category R elName rowList st = Inr (x, st1)"
    and "distinct rowList" and "\<forall>a \<in> set rowList. a < length st"
  shows "st1 ! a = st ! a \<or> (\<exists>h ii. st1 ! a = normalize_row h ii (st ! a))"
proof (cases x)
  case None
  with assms(1) build_category_None show ?thesis by blast
next
  case (Some aCat)
  with assms(1) have b: "build_category R elName rowList st = Inr (Some aCat, st1)" by simp
  show ?thesis
  proof (cases "a \<in> set rowList")
    case False
    with build_category_store(2) [OF b] show ?thesis by simp
  next
    case True
    then obtain i where i: "i < length rowList" "rowList ! i = a" by (auto simp: in_set_conv_nth)
    from b assms(2,3) obtain ats where
      "\<forall>i < length rowList.
         st1 ! (rowList ! i) = normalize_row (''ordinal'' \<in> set ats) (int i + 1) (st ! (rowList ! i))"
      by (rule build_category_rows)
    with i show ?thesis by blast
  qed
qed

lemma build_categories_touch:
  "build_categories R rD (st, cur) = Inr (st', cur') \<Longrightarrow> distinct (table_addrs rD) \<Longrightarrow>
   \<forall>a \<in> set (table_addrs rD). a < length st \<Longrightarrow>
     st' ! a = st ! a \<or> (\<exists>h ii. st' ! a = normalize_row h ii (st ! a))"
proof (induction rD arbitrary: st cur)
  case Nil
  then show ?case by simp
next
  case (Cons p rD)
  obtain m rows where p: "p = (m, rows)" by (cases p)
  from Cons.prems(1) p obtain x st1 where b: "build_category R m rows st = Inr (x, st1)"
    by (cases "build_category R m rows st") auto
  from Cons.prems(1) p b have rest:
    "build_categories R rD (st1, case x of None \<Rightarrow> cur | Some aCat \<Rightarrow> container_append cur aCat)
       = Inr (st', cur')"
    by (cases x) simp_all
  from Cons.prems(2) p have d: "distinct rows" "distinct (table_addrs rD)"
    and dj: "set rows \<inter> set (table_addrs rD) = {}"
    by (simp_all add: table_addrs_def)
  from Cons.prems(3) p have r: "\<forall>a \<in> set rows. a < length st"
    and r': "\<forall>a \<in> set (table_addrs rD). a < length st"
    by (simp_all add: table_addrs_def)
  have len: "length st1 = length st" using b by (rule build_category_store(1))
  show ?case
  proof (cases "a \<in> set rows")
    case True
    with dj have "a \<notin> set (table_addrs rD)" by auto
    with build_categories_store [OF rest, of a] have "st' ! a = st1 ! a" by simp
    with build_category_touch [OF b d(1) r, of a] show ?thesis by simp
  next
    case False
    with build_category_store(2) [OF b] have same: "st1 ! a = st ! a" by simp
    from r' len have "\<forall>a \<in> set (table_addrs rD). a < length st1" by simp
    from Cons.IH [OF rest d(2) this] same show ?thesis by simp
  qed
qed

section \<open>The claims\<close>

text \<open>
  C1.  The claim: \<open>read\<close> returns the assembled container for every document, also when
  the \<open>program\<close> category is absent.  The code returns the container only from inside
  the provenance branch.  On \<open>doc_entry\<close>, which has an \<open>Entry\<close> element and no
  \<open>program\<close> element, the \<open>Entry\<close> category is built and \<open>read\<close> returns \<open>None\<close>.
\<close>

theorem read_without_program_returns_None:
  "read demo_reader doc_entry =
     Inr (None, [[], [(''pdbid'', PyStr ''1ABC''), (''ordinal'', PyInt 1)]])"
  by code_simp

text \<open>
  C2.  The claim: a category with no attribute list registered in the schema map is
  skipped without an error.  The code indexes \<open>__attribD\<close> with the tag before it
  tests the length of the list: on \<open>doc_unregistered\<close>, whose only element has the
  unregistered tag \<open>Extension\<close>, \<open>read\<close> raises \<open>KeyError\<close>.
\<close>

theorem read_unregistered_category_raises:
  "read demo_reader doc_unregistered = Inl KeyError"
  by code_simp




text \<open>
  C4.  When a category that is not skipped has a row with a column name that has no
  entry in the attribute order table, the build raises \<open>KeyError\<close> and \<open>read\<close>
  produces no container.  The category is given by its entry in the table \<open>rD\<close> that
  \<open>__extract\<close> returns for the document; it is not skipped when it has a row, is
  registered in \<open>__attribD\<close> and is not named \<open>programs\<close>.
\<close>

theorem unranked_column_raises_KeyError:
  assumes "parse doc = (xrt, st0)" and "extract_xrt xrt st0 = (rD, st)"
    and "(elName, rowList) \<in> set rD" and "a \<in> set rowList"
    and "dict_get (attribD R) elName = Some ats" and "elName \<noteq> ''programs''"
    and "ky \<in> set (dict_keys (st ! a))" and "dict_get (atOrdD R) ky = None"
  shows "buildCif R rD st = Inl KeyError \<and> read R doc = Inl KeyError"
proof -
  from assms(5) have ne: "ats \<noteq> []" by (rule attribD_nonempty)
  have "build_categories R rD (st, DataContainer_init ''vrpt'') = Inl KeyError"
    using assms(3,4,5) ne assms(6,7,8) by (rule build_categories_missing)
  then have b: "buildCif R rD st = Inl KeyError" by (simp add: buildCif_def)
  with assms(1,2) show ?thesis by (simp add: read_def)
qed

text \<open>The hypotheses of C4 hold for \<open>doc_unranked\<close>, whose \<open>colour\<close> attribute has no rank.\<close>

theorem unranked_column_raises_KeyError_witness:
  "buildCif demo_reader [(''Entry'', [1])]
     [[], [(''pdbid'', PyStr ''1ABC''), (''colour'', PyStr ''red'')]] = Inl KeyError
   \<and> read demo_reader doc_unranked = Inl KeyError"
proof -
  have h1: "parse doc_unranked =
    (Element ''wwPDB-validation-information'' 0 [Element ''Entry'' 1 []],
     [[], [(''pdbid'', PyStr ''1ABC''), (''colour'', PyStr ''red'')]])"
    by code_simp
  have h2: "extract_xrt (Element ''wwPDB-validation-information'' 0 [Element ''Entry'' 1 []])
      [[], [(''pdbid'', PyStr ''1ABC''), (''colour'', PyStr ''red'')]] =
    ([(''Entry'', [1])], [[], [(''pdbid'', PyStr ''1ABC''), (''colour'', PyStr ''red'')]])"
    by code_simp
  have h3: "(''Entry'', [1::nat]) \<in> set [(''Entry'', [1])]" by simp
  have h4: "(1::nat) \<in> set [1]" by simp
  have h5: "dict_get (attribD demo_reader) ''Entry'' = Some [''pdbid'', ''ordinal'']"
    by code_simp
  have h6: "''Entry'' \<noteq> ''programs''" by simp
  have h7: "''colour'' \<in> set (dict_keys
      ([[], [(''pdbid'', PyStr ''1ABC''), (''colour'', PyStr ''red'')]] ! 1))"
    by code_simp
  have h8: "dict_get (atOrdD demo_reader) ''colour'' = None" by code_simp
  from unranked_column_raises_KeyError [OF h1 h2 h3 h4 h5 h6 h7 h8] show ?thesis .
qed



text \<open>
  C6.  For a child \<open>ch\<close> of a top-level \<open>ModelledSubgroup\<close> element \<open>el\<close> of a parsed
  document, the table holds under the tag of \<open>ch\<close> a new row which maps a key to the
  value of \<open>el\<close> when the key is one of the eight cardinal attributes and \<open>el\<close> has it,
  and to the value of \<open>ch\<close> otherwise.  For every grandchild the table holds, under its
  tag, the grandchild's own attribute dict, with the content it had after parsing.
\<close>

theorem child_and_grandchild_rows:
  assumes "parse doc = (xrt, st0)" and "extract_xrt xrt st0 = (rD, st)"
    and "el \<in> set (children xrt)" and "tag el = ''ModelledSubgroup''"
    and "ch \<in> set (children el)"
  shows "(\<exists>a. in_table rD (tag ch) a \<and> length st0 \<le> a \<and>
            (\<forall>k. dict_get (st ! a) k =
               (if k \<in> set atL \<and> dict_in k (st0 ! attrib el)
                then dict_get (st0 ! attrib el) k else dict_get (st0 ! attrib ch) k)))
    \<and> (\<forall>g \<in> set (children ch). in_table rD (tag g) (attrib g) \<and> st ! attrib g = st0 ! attrib g)"
proof -
  from assms(2) have f: "fold extract_el (children xrt) ([], st0) = (rD, st)"
    by (simp add: extract_xrt_def)
  have r: "attrib el < length st0" "attrib ch < length st0"
    "\<forall>g \<in> set (children ch). attrib g < length st0"
    using parse_in_range [OF assms(1,3)] assms(5) by auto
  from fold_extract_el_child [OF f assms(3,5) r] obtain a where
    a: "length st0 \<le> a" "in_table rD (tag ch) a" "st ! a = child_row (msgD_of el) ch st0"
    and g: "\<forall>g \<in> set (children ch). in_table rD (tag g) (attrib g) \<and> st ! attrib g = st0 ! attrib g"
    by blast
  from assms(4) have m: "msgD_of el = Some (attrib el)" by (simp add: msgD_of_def)
  have "\<forall>k. dict_get (st ! a) k =
               (if k \<in> set atL \<and> dict_in k (st0 ! attrib el)
                then dict_get (st0 ! attrib el) k else dict_get (st0 ! attrib ch) k)"
    by (simp add: a(3) dict_get_child_row m dict_in_iff)
  with a g show ?thesis by blast
qed

text \<open>The hypotheses of C6 hold for \<open>doc_subgroup\<close>: the child \<open>B\<close> with \<open>y = 2\<close> under the
  \<open>ModelledSubgroup\<close> with \<open>chain = 1\<close> gives the row \<open>{y: 2, chain: 1}\<close>; \<open>rsr\<close>, which
  is not cardinal, is not handed down.\<close>

theorem child_and_grandchild_rows_witness:
  "parse doc_subgroup = (subgroup_tree, subgroup_store)
   \<and> extract_xrt subgroup_tree subgroup_store = (subgroup_table, subgroup_store1)
   \<and> subgroup_store1 ! 4 = [(''y'', PyStr ''2''), (''chain'', PyStr ''1'')]
   \<and> (\<exists>a. in_table subgroup_table ''B'' a \<and> 4 \<le> a
         \<and> dict_get (subgroup_store1 ! a) ''y'' = Some (PyStr ''2'')
         \<and> dict_get (subgroup_store1 ! a) ''chain'' = Some (PyStr ''1'')
         \<and> dict_get (subgroup_store1 ! a) ''rsr'' = None)
   \<and> in_table subgroup_table ''G'' 3
   \<and> subgroup_store1 ! 3 = subgroup_store ! 3"
proof -
  let ?ch = "Element ''B'' 2 [Element ''G'' 3 []]"
  let ?el = "Element ''ModelledSubgroup'' 1 [?ch]"
  have h1: "parse doc_subgroup = (subgroup_tree, subgroup_store)" by code_simp
  have h2: "extract_xrt subgroup_tree subgroup_store = (subgroup_table, subgroup_store1)"
    by code_simp
  have h3: "?el \<in> set (children subgroup_tree)" by (simp add: subgroup_tree_def)
  have h4: "tag ?el = ''ModelledSubgroup''" by simp
  have h5: "?ch \<in> set (children ?el)" by simp
  have row: "subgroup_store1 ! 4 = [(''y'', PyStr ''2''), (''chain'', PyStr ''1'')]"
    by code_simp
  have e1: "dict_get (subgroup_store ! 1) ''chain'' = Some (PyStr ''1'')"
    and e2: "dict_get (subgroup_store ! 2) ''y'' = Some (PyStr ''2'')"
    and e3: "dict_get (subgroup_store ! 2) ''rsr'' = None"
    and e4: "dict_in ''chain'' (subgroup_store ! 1)"
    and e5: "''chain'' \<in> set atL" and e6: "''y'' \<notin> set atL" and e7: "''rsr'' \<notin> set atL"
    and e8: "length subgroup_store = 4"
    by code_simp+
  from child_and_grandchild_rows [OF h1 h2 h3 h4 h5] obtain a where
    a: "in_table subgroup_table ''B'' a" "length subgroup_store \<le> a"
      "\<forall>k. dict_get (subgroup_store1 ! a) k =
               (if k \<in> set atL \<and> dict_in k (subgroup_store ! 1)
                then dict_get (subgroup_store ! 1) k else dict_get (subgroup_store ! 2) k)"
    and g: "in_table subgroup_table ''G'' 3 \<and> subgroup_store1 ! 3 = subgroup_store ! 3"
    by auto
  from a(3) e1 e4 e5 have c1: "dict_get (subgroup_store1 ! a) ''chain'' = Some (PyStr ''1'')"
    by simp
  from a(3) e2 e6 have c2: "dict_get (subgroup_store1 ! a) ''y'' = Some (PyStr ''2'')"
    by simp
  from a(3) e3 e7 have c3: "dict_get (subgroup_store1 ! a) ''rsr'' = None"
    by simp
  from a(2) e8 have c4: "4 \<le> a" by simp
  from h1 h2 row a(1) c1 c2 c3 c4 g show ?thesis by blast
qed





text \<open>
  C9.  In every emitted category the columns stand in ascending rank: of two columns,
  the one with the smaller rank in the attribute order table comes first.  The columns
  are distinct and are the union of the keys of all rows, and renaming translates the
  column list position by position, so the order of the final column list is the same.
\<close>

theorem columns_sorted_by_rank:
  assumes "build_category R elName rowList st = Inr (Some aCat, st1)"
    and "i < length (attributeNameList aCat)" and "j < length (attributeNameList aCat)"
    and "dict_get (atOrdD R) (attributeNameList aCat ! i) = Some r1"
    and "dict_get (atOrdD R) (attributeNameList aCat ! j) = Some r2"
    and "r1 < r2"
  shows "i < j
    \<and> distinct (attributeNameList aCat)
    \<and> set (attributeNameList aCat) = (\<Union>a \<in> set rowList. set (dict_keys (st1 ! a)))
    \<and> attributeNameList (rename_category R elName aCat) =
        map (mapAtName R elName) (attributeNameList aCat)"
proof -
  from assms(1) obtain ats atS where
    nr: "normalize_rows (''ordinal'' \<in> set ats) 1 rowList (st, []) = (st1, atS)"
    and srt: "sorted_attributes R atS = Inr (attributeNameList aCat)"
    by (rule build_category_SomeD)
  from sorted_attributes_order [OF srt assms(2,3,4,5,6)] have 1: "i < j" .
  from sorted_attributes_set [OF srt] normalize_rows_atS [OF nr]
  have 2: "distinct (attributeNameList aCat)"
    and 3: "set (attributeNameList aCat) = (\<Union>a \<in> set rowList. set (dict_keys (st1 ! a)))"
    by simp_all
  from 1 2 3 rename_category_attributes show ?thesis by simp
qed

text \<open>The hypotheses of C9 hold for the \<open>Entry\<close> category of \<open>doc_entry\<close>.\<close>

theorem columns_sorted_by_rank_witness:
  "build_category demo_reader ''Entry'' [1] demo_store = Inr (Some demo_category, demo_store1)
   \<and> (0::nat) < 1
   \<and> distinct (attributeNameList demo_category)
   \<and> set (attributeNameList demo_category) = (\<Union>a \<in> set [1]. set (dict_keys (demo_store1 ! a)))
   \<and> attributeNameList (rename_category demo_reader ''Entry'' demo_category) =
        map (mapAtName demo_reader ''Entry'') (attributeNameList demo_category)"
proof -
  have h1: "build_category demo_reader ''Entry'' [1] demo_store =
      Inr (Some demo_category, demo_store1)"
    by code_simp
  have h2: "0 < length (attributeNameList demo_category)"
    and h3: "1 < length (attributeNameList demo_category)"
    by (simp_all add: demo_category_def)
  have h4: "dict_get (atOrdD demo_reader) (attributeNameList demo_category ! 0) = Some 1"
    by code_simp
  have h5: "dict_get (atOrdD demo_reader) (attributeNameList demo_category ! 1) = Some 2"
    by code_simp
  have h6: "(1::int) < 2" by simp
  from columns_sorted_by_rank [OF h1 h2 h3 h4 h5 h6] h1 show ?thesis by blast
qed

text \<open>
  C10.  The list \<open>atL\<close> holds exactly the eight names.  The row made for a child \<open>ch\<close>
  of a top-level element \<open>el\<close> is a new dict.  It maps a key to the value of \<open>el\<close>
  exactly when the tag of \<open>el\<close> is \<open>ModelledSubgroup\<close>, the key is one of the eight
  and \<open>el\<close> has it, also when \<open>ch\<close> has the key too; in every other case, and so for
  every key under any other tag, it maps the key as \<open>ch\<close> does.
\<close>

theorem cardinal_propagation:
  assumes "extract_el el (rD, st) = (rD', st')" and "ch \<in> set (children el)"
    and "attrib el < length st" and "attrib ch < length st"
  shows "set atL = {''altcode'', ''chain'', ''ent'', ''model'', ''resname'', ''resnum'', ''said'', ''seq''}
    \<and> (\<exists>a. length st \<le> a \<and> a < length st' \<and> in_table rD' (tag ch) a \<and>
          (\<forall>k. dict_get (st' ! a) k =
             (if tag el = ''ModelledSubgroup'' \<and> k \<in> set atL \<and> dict_get (st ! attrib el) k \<noteq> None
              then dict_get (st ! attrib el) k else dict_get (st ! attrib ch) k)))"
proof -
  have 1: "set atL = {''altcode'', ''chain'', ''ent'', ''model'', ''resname'', ''resnum'', ''said'', ''seq''}"
    by (simp add: atL_def)
  from extract_el_child [OF assms] obtain a where
    a: "length st \<le> a" "a < length st'" "in_table rD' (tag ch) a"
       "st' ! a = child_row (msgD_of el) ch st"
    by blast
  have "\<forall>k. dict_get (st' ! a) k =
             (if tag el = ''ModelledSubgroup'' \<and> k \<in> set atL \<and> dict_get (st ! attrib el) k \<noteq> None
              then dict_get (st ! attrib el) k else dict_get (st ! attrib ch) k)"
    by (simp add: a(4) dict_get_child_row msgD_of_def)
  with a 1 show ?thesis by blast
qed

text \<open>The hypotheses of C10 hold for \<open>clash_el\<close>, where parent and child both have
  \<open>chain\<close>: the row has the parent's value.\<close>

theorem cardinal_propagation_witness:
  "extract_el clash_el ([], clash_store) =
     ([(''ModelledSubgroup'', [0]), (''clash'', [2])],
      clash_store @ [[(''chain'', PyStr ''A''), (''dist'', PyStr ''2.1'')]])
   \<and> set atL = {''altcode'', ''chain'', ''ent'', ''model'', ''resname'', ''resnum'', ''said'', ''seq''}
   \<and> (\<exists>a. 2 \<le> a \<and> a < 3
         \<and> in_table [(''ModelledSubgroup'', [0]), (''clash'', [2])] ''clash'' a
         \<and> dict_get ((clash_store @ [[(''chain'', PyStr ''A''), (''dist'', PyStr ''2.1'')]]) ! a)
               ''chain'' = Some (PyStr ''A'')
         \<and> dict_get ((clash_store @ [[(''chain'', PyStr ''A''), (''dist'', PyStr ''2.1'')]]) ! a)
               ''dist'' = Some (PyStr ''2.1''))"
proof -
  let ?ch = "Element ''clash'' 1 []"
  let ?st' = "clash_store @ [[(''chain'', PyStr ''A''), (''dist'', PyStr ''2.1'')]]"
  have h1: "extract_el clash_el ([], clash_store) =
     ([(''ModelledSubgroup'', [0]), (''clash'', [2])], ?st')"
    by code_simp
  have h2: "?ch \<in> set (children clash_el)" by (simp add: clash_el_def)
  have h3: "attrib clash_el < length clash_store" by code_simp
  have h4: "attrib ?ch < length clash_store" by code_simp
  have e1: "tag clash_el = ''ModelledSubgroup''"
    and e2: "dict_get (clash_store ! attrib clash_el) ''chain'' = Some (PyStr ''A'')"
    and e3: "dict_get (clash_store ! attrib ?ch) ''dist'' = Some (PyStr ''2.1'')"
    and e4: "''chain'' \<in> set atL" and e5: "''dist'' \<notin> set atL"
    and e6: "length clash_store = 2" and e7: "length ?st' = 3"
    by code_simp+
  from cardinal_propagation [OF h1 h2 h3 h4] obtain a where
    s: "set atL = {''altcode'', ''chain'', ''ent'', ''model'', ''resname'', ''resnum'', ''said'', ''seq''}"
    and a: "length clash_store \<le> a" "a < length ?st'"
      "in_table [(''ModelledSubgroup'', [0]), (''clash'', [2])] (tag ?ch) a"
      "\<forall>k. dict_get (?st' ! a) k =
             (if tag clash_el = ''ModelledSubgroup'' \<and> k \<in> set atL
                 \<and> dict_get (clash_store ! attrib clash_el) k \<noteq> None
              then dict_get (clash_store ! attrib clash_el) k
              else dict_get (clash_store ! attrib ?ch) k)"
    by blast
  from a(4) e1 e2 e4 have c1: "dict_get (?st' ! a) ''chain'' = Some (PyStr ''A'')" by simp
  from a(4) e3 e5 have c2: "dict_get (?st' ! a) ''dist'' = Some (PyStr ''2.1'')" by simp
  from a(1) e6 have c3: "2 \<le> a" by simp
  from a(2) e7 have c4: "a < 3" by simp
  from a(3) have c5: "in_table [(''ModelledSubgroup'', [0]), (''clash'', [2])] ''clash'' a" by simp
  from h1 s c1 c2 c3 c4 c5 show ?thesis by blast
qed

end
